theory Spec2Isabelle
  imports Complex_Main "HOL-Library.Multiset"
begin

section \<open>Python values read from standard input\<close>

text \<open>
  The script \<^verbatim>\<open>priv/scripts/leidenalg_detect.py\<close> reads one JSON document and works on
  the Python values \<^verbatim>\<open>json.load\<close> builds from it. A float is a finite value, one of the
  two infinities or NaN (the \<^verbatim>\<open>json\<close> module accepts \<^verbatim>\<open>Infinity\<close>, \<^verbatim>\<open>-Infinity\<close> and
  \<^verbatim>\<open>NaN\<close>); every finite double is a rational number, and the script never does
  arithmetic on a float, so finite floats are carried as rationals. The negative zero
  \<^verbatim>\<open>-0.0\<close> is a float of its own: it compares equal to \<^verbatim>\<open>0.0\<close> and prints differently. A JSON
  object is the Python dict built from it, as the list of its items in insertion order.
\<close>

datatype pyfloat = Fin rat | NegZero | PInf | NInf | NaN

datatype json =
    JNull
  | JBool bool
  | JInt int
  | JFloat pyfloat
  | JStr string
  | JArr "json list"
  | JObj "(string \<times> json) list"

text \<open>
  The exceptions of a run. All but the last are instances of \<^verbatim>\<open>Exception\<close>, which is what
  \<^verbatim>\<open>except Exception\<close> catches; \<^verbatim>\<open>BaseException\<close> stands for one that is not (leidenalg raises
  \<^verbatim>\<open>BaseException\<close> itself, with a message).
\<close>

datatype exn =
    AttributeError
  | TypeError
  | ValueError
  | OverflowError
  | KeyError
  | OtherError string
  | BaseException string

fun is_Exception :: "exn \<Rightarrow> bool" where
  "is_Exception (BaseException msg) = False"
| "is_Exception e = True"

text \<open>
  Python's truth value of an object, as used by \<^verbatim>\<open>weight or 1.0\<close>.
\<close>

fun truthy :: "json \<Rightarrow> bool" where
  "truthy JNull = False"
| "truthy (JBool b) = b"
| "truthy (JInt i) = (i \<noteq> 0)"
| "truthy (JFloat f) = (f \<noteq> Fin 0 \<and> f \<noteq> NegZero)"
| "truthy (JStr s) = (s \<noteq> [])"
| "truthy (JArr xs) = (xs \<noteq> [])"
| "truthy (JObj kvs) = (kvs \<noteq> [])"

definition py_or :: "json \<Rightarrow> json \<Rightarrow> json" where
  "py_or x y = (if truthy x then x else y)"

text \<open>
  The builtin \<^verbatim>\<open>float()\<close>. An integer of magnitude at most \<open>2 ^ 53\<close> converts exactly;
  what a larger integer rounds to (or whether it overflows) and how a string parses are
  the interpreter's business and are taken as parameters.
\<close>

record builtins =
  big_int_to_float :: "int \<Rightarrow> exn + pyfloat"
  str_to_float :: "string \<Rightarrow> exn + pyfloat"

fun py_float :: "builtins \<Rightarrow> json \<Rightarrow> exn + pyfloat" where
  "py_float b JNull = Inl TypeError"
| "py_float b (JBool v) = Inr (Fin (if v then 1 else 0))"
| "py_float b (JInt i) =
     (if \<bar>i\<bar> \<le> 2 ^ 53 then Inr (Fin (of_int i)) else big_int_to_float b i)"
| "py_float b (JFloat f) = Inr f"
| "py_float b (JStr s) = str_to_float b s"
| "py_float b (JArr xs) = Inl TypeError"
| "py_float b (JObj kvs) = Inl TypeError"

text \<open>
  \<^verbatim>\<open>len(x)\<close> and iteration over \<^verbatim>\<open>x\<close> (a \<^verbatim>\<open>for\<close> loop or a tuple unpacking): lists, strings
  (character by character) and dicts (their keys) support both, nothing else does.
\<close>

fun py_len :: "json \<Rightarrow> exn + nat" where
  "py_len (JArr xs) = Inr (length xs)"
| "py_len (JStr s) = Inr (length s)"
| "py_len (JObj kvs) = Inr (length kvs)"
| "py_len v = Inl TypeError"

fun py_iter :: "json \<Rightarrow> exn + json list" where
  "py_iter (JArr xs) = Inr xs"
| "py_iter (JStr s) = Inr (map (\<lambda>c. JStr [c]) s)"
| "py_iter (JObj kvs) = Inr (map (\<lambda>(k, v). JStr k) kvs)"
| "py_iter v = Inl TypeError"

section \<open>Dictionaries\<close>

text \<open>
  A Python dict keeps its items in insertion order and finds a key by hash and equality.
  \<open>nk\<close> sends a key to what Python compares: for the integer keys of the script it is
  the identity, for the JSON values used as vertex identifiers it is \<open>key_of\<close> below.
  Assigning to a key that is present keeps the stored key object and its position.
\<close>

definition dict_contains :: "('k \<Rightarrow> 'n) \<Rightarrow> ('k \<times> 'v) list \<Rightarrow> 'k \<Rightarrow> bool" where
  "dict_contains nk d k = (nk k \<in> set (map (\<lambda>(k', v). nk k') d))"

fun dict_get :: "('k \<Rightarrow> 'n) \<Rightarrow> ('k \<times> 'v) list \<Rightarrow> 'k \<Rightarrow> 'v option" where
  "dict_get nk [] k = None"
| "dict_get nk ((k', v) # d) k = (if nk k' = nk k then Some v else dict_get nk d k)"

fun dict_set :: "('k \<Rightarrow> 'n) \<Rightarrow> ('k \<times> 'v) list \<Rightarrow> 'k \<Rightarrow> 'v \<Rightarrow> ('k \<times> 'v) list" where
  "dict_set nk [] k v = [(k, v)]"
| "dict_set nk ((k', v') # d) k v =
     (if nk k' = nk k then (k', v) # d else (k', v') # dict_set nk d k v)"

definition dict_item :: "('k \<Rightarrow> 'n) \<Rightarrow> ('k \<times> 'v) list \<Rightarrow> 'k \<Rightarrow> exn + 'v" where
  "dict_item nk d k = (case dict_get nk d k of None \<Rightarrow> Inl KeyError | Some v \<Rightarrow> Inr v)"

text \<open>
  What Python's \<^verbatim>\<open>==\<close> and \<^verbatim>\<open>hash\<close> see of a value used as a dict key or set element.
  Booleans, integers and floats compare by numeric value (\<^verbatim>\<open>True == 1 == 1.0\<close>), exactly;
  every \<^verbatim>\<open>NaN\<close> of one document is the same object of the \<^verbatim>\<open>json\<close> module, and a
  container finds an object identical to a stored one. Lists and dicts are unhashable:
  using one as a key raises \<^verbatim>\<open>TypeError\<close>.
\<close>

datatype ident = KNull | KNum rat | KPInf | KNInf | KNaN | KStr string

fun key_of :: "json \<Rightarrow> ident option" where
  "key_of JNull = Some KNull"
| "key_of (JBool v) = Some (KNum (if v then 1 else 0))"
| "key_of (JInt i) = Some (KNum (of_int i))"
| "key_of (JFloat (Fin r)) = Some (KNum r)"
| "key_of (JFloat NegZero) = Some (KNum 0)"
| "key_of (JFloat PInf) = Some KPInf"
| "key_of (JFloat NInf) = Some KNInf"
| "key_of (JFloat NaN) = Some KNaN"
| "key_of (JStr s) = Some (KStr s)"
| "key_of (JArr xs) = None"
| "key_of (JObj kvs) = None"

section \<open>Loops that may raise\<close>

fun for_each :: "('s \<Rightarrow> 'a \<Rightarrow> exn + 's) \<Rightarrow> 'a list \<Rightarrow> 's \<Rightarrow> exn + 's" where
  "for_each f [] s = Inr s"
| "for_each f (x # xs) s =
     (case f s x of Inl e \<Rightarrow> Inl e | Inr s' \<Rightarrow> for_each f xs s')"

section \<open>detect_communities\<close>

text \<open>
  The graph handed to igraph and leidenalg: \<^verbatim>\<open>ig.Graph(n=..., edges=..., directed=False)\<close>
  with \<^verbatim>\<open>g.es["weight"] = weights\<close>.
\<close>

record graph =
  vcount :: nat
  es :: "(nat \<times> nat) list"
  es_weight :: "pyfloat list"

text \<open>
  \<^verbatim>\<open>la.find_partition(g, la.RBConfigurationVertexPartition, weights=weights,
  resolution_parameter=resolution, n_iterations=n_iterations)\<close> followed by
  \<^verbatim>\<open>partition.membership\<close>. The Leiden algorithm is the leidenalg library, not code of this
  script: it is a parameter, giving either the exception it raises or the membership list.
\<close>

type_synonym library = "graph \<Rightarrow> pyfloat list \<Rightarrow> json \<Rightarrow> json \<Rightarrow> exn + int list"

record community =
  level :: int
  entity_ids :: "json list"

type_synonym edge = "json \<times> json \<times> pyfloat"

text \<open>
  \<^verbatim>\<open>if v not in vertex_ids: vertex_ids[v] = len(vertex_ids)\<close>
\<close>

definition add_vertex :: "(json \<times> nat) list \<Rightarrow> json \<Rightarrow> exn + (json \<times> nat) list" where
  "add_vertex vertex_ids v =
     (case key_of v of
        None \<Rightarrow> Inl TypeError
      | Some k \<Rightarrow>
          Inr (if \<not> dict_contains key_of vertex_ids v
               then dict_set key_of vertex_ids v (length vertex_ids)
               else vertex_ids))"

fun edge_step ::
  "(json \<times> nat) list \<times> (nat \<times> nat) list \<times> pyfloat list \<Rightarrow> edge \<Rightarrow>
   exn + (json \<times> nat) list \<times> (nat \<times> nat) list \<times> pyfloat list" where
  "edge_step (vertex_ids, edge_tuples, weights) (source, target, weight) =
     (case add_vertex vertex_ids source of
        Inl e \<Rightarrow> Inl e
      | Inr vertex_ids1 \<Rightarrow>
     (case add_vertex vertex_ids1 target of
        Inl e \<Rightarrow> Inl e
      | Inr vertex_ids2 \<Rightarrow>
     (case dict_item key_of vertex_ids2 source of
        Inl e \<Rightarrow> Inl e
      | Inr i \<Rightarrow>
     (case dict_item key_of vertex_ids2 target of
        Inl e \<Rightarrow> Inl e
      | Inr j \<Rightarrow> Inr (vertex_ids2, edge_tuples @ [(i, j)], weights @ [weight])))))"

definition build_graph ::
  "edge list \<Rightarrow> exn + (json \<times> nat) list \<times> (nat \<times> nat) list \<times> pyfloat list" where
  "build_graph edges = for_each edge_step edges ([], [], [])"

text \<open>
  \<^verbatim>\<open>id_to_vertex = {v: k for k, v in vertex_ids.items()}\<close>
\<close>

definition reverse_mapping :: "(json \<times> nat) list \<Rightarrow> (nat \<times> json) list" where
  "reverse_mapping vertex_ids =
     fold (\<lambda>(k, v) d. dict_set (\<lambda>x. x) d v k) vertex_ids []"

text \<open>
  The body of the loop over \<^verbatim>\<open>enumerate(partition.membership)\<close>.
\<close>

fun group_step ::
  "(nat \<times> json) list \<Rightarrow> (int \<times> json list) list \<Rightarrow> nat \<times> int \<Rightarrow>
   exn + (int \<times> json list) list" where
  "group_step id_to_vertex communities_by_id (vertex_idx, community_id) =
     (let c1 = (if \<not> dict_contains (\<lambda>x. x) communities_by_id community_id
                then dict_set (\<lambda>x. x) communities_by_id community_id []
                else communities_by_id)
      in case dict_item (\<lambda>x. x) c1 community_id of
           Inl e \<Rightarrow> Inl e
         | Inr members \<Rightarrow>
        (case dict_item (\<lambda>x. x) id_to_vertex vertex_idx of
           Inl e \<Rightarrow> Inl e
         | Inr v \<Rightarrow> Inr (dict_set (\<lambda>x. x) c1 community_id (members @ [v]))))"

definition group_by_community ::
  "(nat \<times> json) list \<Rightarrow> int list \<Rightarrow> exn + (int \<times> json list) list" where
  "group_by_community id_to_vertex membership =
     for_each (group_step id_to_vertex) (enumerate 0 membership) []"

definition detect_communities ::
  "library \<Rightarrow> edge list \<Rightarrow> json \<Rightarrow> json \<Rightarrow> exn + community list" where
  "detect_communities lib edges resolution n_iterations =
     (if edges = [] then Inr []
      else case build_graph edges of
        Inl e \<Rightarrow> Inl e
      | Inr (vertex_ids, edge_tuples, weights) \<Rightarrow>
          (let id_to_vertex = reverse_mapping vertex_ids;
               g = \<lparr>vcount = length vertex_ids, es = edge_tuples, es_weight = weights\<rparr>
           in case lib g weights resolution n_iterations of
                Inl e \<Rightarrow> Inl e
              | Inr membership \<Rightarrow>
             (case group_by_community id_to_vertex membership of
                Inl e \<Rightarrow> Inl e
              | Inr communities_by_id \<Rightarrow>
                  Inr (map (\<lambda>(c, entity_ids). \<lparr>level = 0, entity_ids = entity_ids\<rparr>)
                         communities_by_id))))"

section \<open>main\<close>

text \<open>
  \<^verbatim>\<open>json.load(sys.stdin)\<close> either raises \<^verbatim>\<open>json.JSONDecodeError\<close> (with its message), raises
  something else (\<^verbatim>\<open>UnicodeDecodeError\<close> on bytes that are not text, \<^verbatim>\<open>RecursionError\<close> on
  deep nesting), or gives a value.
\<close>

datatype stdin = Unparseable string | Unreadable exn | Parsed json

record result =
  communities :: "community list"
  vertex_count :: nat
  edge_count :: nat
  community_count :: nat

text \<open>
  The JSON object \<^verbatim>\<open>{"error": ...}\<close> printed on standard error: \<^verbatim>\<open>Invalid JSON input:\<close>
  followed by the decoder's message, or \<^verbatim>\<open>str(e)\<close> of the exception caught.
\<close>

datatype error_body = InvalidJSON string | Raised exn

text \<open>
  How a run ends: the result printed on standard output (exit status 0), the error object
  printed on standard error (exit status 1), or an exception nothing catches, for which
  the interpreter prints a traceback (exit status 1).
\<close>

datatype outcome = Success result | ErrorReport error_body | Crash exn

text \<open>
  \<^verbatim>\<open>input_data.get(key, default)\<close>
\<close>

definition obj_get :: "(string \<times> json) list \<Rightarrow> string \<Rightarrow> json \<Rightarrow> json" where
  "obj_get kvs k dflt = (case dict_get (\<lambda>x. x) kvs k of None \<Rightarrow> dflt | Some v \<Rightarrow> v)"

text \<open>
  The body of the loop that converts the edges to tuples with weights.
\<close>

definition convert_edge :: "builtins \<Rightarrow> json \<Rightarrow> exn + edge" where
  "convert_edge b edge =
     (case py_len edge of
        Inl e \<Rightarrow> Inl e
      | Inr n \<Rightarrow>
     (case py_iter edge of
        Inl e \<Rightarrow> Inl e
      | Inr items \<Rightarrow>
     (case (if n = 2
            then (case items of
                    [source, target] \<Rightarrow> Inr (source, target, JFloat (Fin 1))
                  | _ \<Rightarrow> Inl ValueError)
            else (case items of
                    [source, target, weight] \<Rightarrow> Inr (source, target, weight)
                  | _ \<Rightarrow> Inl ValueError)) of
        Inl e \<Rightarrow> Inl e
      | Inr (source, target, weight) \<Rightarrow>
     (case py_float b (py_or weight (JFloat (Fin 1))) of
        Inl e \<Rightarrow> Inl e
      | Inr w \<Rightarrow> Inr (source, target, w)))))"

definition convert_edges :: "builtins \<Rightarrow> json list \<Rightarrow> exn + edge list" where
  "convert_edges b edges =
     for_each (\<lambda>edge_tuples edge.
        case convert_edge b edge of
          Inl e \<Rightarrow> Inl e
        | Inr t \<Rightarrow> Inr (edge_tuples @ [t])) edges []"

text \<open>
  \<^verbatim>\<open>len(set(v for e in edge_tuples for v in e[:2]))\<close>
\<close>

definition endpoints :: "edge list \<Rightarrow> json list" where
  "endpoints edge_tuples = concat (map (\<lambda>(source, target, weight). [source, target]) edge_tuples)"

definition count_vertices :: "edge list \<Rightarrow> exn + nat" where
  "count_vertices edge_tuples =
     (if None \<in> set (map key_of (endpoints edge_tuples)) then Inl TypeError
      else Inr (length (remdups (map key_of (endpoints edge_tuples)))))"

text \<open>
  The handler \<^verbatim>\<open>except Exception as e\<close> around the call of \<^verbatim>\<open>detect_communities\<close> and the
  printing of the result: an instance of \<^verbatim>\<open>Exception\<close> is printed as the error object, any
  other exception passes through uncaught.
\<close>

definition except_Exception :: "exn \<Rightarrow> outcome" where
  "except_Exception e = (if is_Exception e then ErrorReport (Raised e) else Crash e)"

definition main :: "builtins \<Rightarrow> library \<Rightarrow> stdin \<Rightarrow> outcome" where
  "main b lib inp =
     (case inp of
        Unparseable msg \<Rightarrow> ErrorReport (InvalidJSON msg)
      | Unreadable e \<Rightarrow> Crash e
      | Parsed input_data \<Rightarrow>
     (case input_data of
        JObj kvs \<Rightarrow>
          (let edges = obj_get kvs ''edges'' (JArr []);
               resolution = obj_get kvs ''resolution'' (JFloat (Fin 1));
               n_iterations = obj_get kvs ''n_iterations'' (JInt (- 1))
           in case py_iter edges of
                Inl e \<Rightarrow> Crash e
              | Inr edge_list \<Rightarrow>
             (case convert_edges b edge_list of
                Inl e \<Rightarrow> Crash e
              | Inr edge_tuples \<Rightarrow>
             (case detect_communities lib edge_tuples resolution n_iterations of
                Inl e \<Rightarrow> except_Exception e
              | Inr comms \<Rightarrow>
             (case count_vertices edge_tuples of
                Inl e \<Rightarrow> except_Exception e
              | Inr n \<Rightarrow>
                  Success \<lparr>communities = comms, vertex_count = n,
                           edge_count = length edge_tuples,
                           community_count = length comms\<rparr>))))
      | _ \<Rightarrow> Crash AttributeError))"

section \<open>Notions the claims speak of\<close>

text \<open>
  The identifiers of an edge list in first-seen order: each one at its first occurrence,
  later occurrences that Python compares equal to it dropped.
\<close>

function first_seen :: "json list \<Rightarrow> json list" where
  "first_seen [] = []"
| "first_seen (x # xs) = x # first_seen (filter (\<lambda>y. key_of y \<noteq> key_of x) xs)"
  by pat_completeness auto
termination
  by (relation "measure length") (auto simp: less_Suc_eq_le)

text \<open>
  What the script relies on from the library: a membership list has one label for each
  vertex of the graph it was computed for (\<^verbatim>\<open>partition.membership\<close> of igraph's
  \<^verbatim>\<open>VertexClustering\<close>).
\<close>

definition one_label_per_vertex :: "library \<Rightarrow> bool" where
  "one_label_per_vertex lib =
     (\<forall>g weights resolution n_iterations membership.
        lib g weights resolution n_iterations = Inr membership \<longrightarrow>
        length membership = vcount g)"



section \<open>Stand-ins for the interpreter and the library, for evaluation\<close>

definition plain_builtins :: builtins where
  "plain_builtins =
     \<lparr>big_int_to_float = (\<lambda>i. Inl OverflowError), str_to_float = (\<lambda>s. Inl ValueError)\<rparr>"

definition one_community :: library where
  "one_community g weights resolution n_iterations = Inr (replicate (vcount g) 0)"


definition singletons :: library where
  "singletons g weights resolution n_iterations = Inr (map int [0..<vcount g])"

section \<open>Properties of the loops\<close>

lemma for_each_append:
  "for_each f (xs @ ys) s =
     (case for_each f xs s of Inl e \<Rightarrow> Inl e | Inr s' \<Rightarrow> for_each f ys s')"
  by (induction xs arbitrary: s) (auto split: sum.splits)

section \<open>Evaluating a run\<close>

lemmas run_defs = main_def obj_get_def convert_edges_def convert_edge_def py_or_def
  detect_communities_def build_graph_def add_vertex_def dict_contains_def dict_item_def
  reverse_mapping_def group_by_community_def count_vertices_def endpoints_def
  enumerate_eq_zip

section \<open>Edge conversion\<close>




lemma convert_edges_snoc:
  "convert_edges b (edges @ [edge]) =
     (case convert_edges b edges of Inl e \<Rightarrow> Inl e
      | Inr ts \<Rightarrow> (case convert_edge b edge of Inl e \<Rightarrow> Inl e | Inr t \<Rightarrow> Inr (ts @ [t])))"
  by (simp add: convert_edges_def for_each_append split: sum.splits)

lemma convert_edges_Inr:
  "convert_edges b edges = Inr ts \<Longrightarrow> list_all2 (\<lambda>edge t. convert_edge b edge = Inr t) edges ts"
proof (induction edges arbitrary: ts rule: rev_induct)
  case Nil
  then show ?case by (simp add: convert_edges_def)
next
  case (snoc edge edges)
  from snoc.prems obtain ts0 t where "convert_edges b edges = Inr ts0"
    "convert_edge b edge = Inr t" "ts = ts0 @ [t]"
    by (auto simp: convert_edges_snoc split: sum.splits)
  with snoc.IH [of ts0] show ?case by (simp add: list_all2_appendI)
qed


section \<open>The empty edge list\<close>

text \<open>
  C3. When the \<^verbatim>\<open>edges\<close> entry of the input is the empty list (or is absent, the default
  being the empty list), the run succeeds with no communities and all three counts 0.
\<close>

theorem empty_edge_list:
  assumes "obj_get kvs ''edges'' (JArr []) = JArr []"
  shows "main b lib (Parsed (JObj kvs)) =
           Success \<lparr>communities = [], vertex_count = 0, edge_count = 0, community_count = 0\<rparr>"
  using assms
  by (simp add: main_def convert_edges_def detect_communities_def count_vertices_def
      endpoints_def)

theorem empty_edge_list_witness:
  "obj_get [(''edges'', JArr []), (''resolution'', JFloat (Fin 1))] ''edges'' (JArr []) = JArr [] \<and>
   main plain_builtins one_community
     (Parsed (JObj [(''edges'', JArr []), (''resolution'', JFloat (Fin 1))])) =
     Success \<lparr>communities = [], vertex_count = 0, edge_count = 0, community_count = 0\<rparr>"
proof -
  have h: "obj_get [(''edges'', JArr []), (''resolution'', JFloat (Fin 1))] ''edges'' (JArr [])
             = JArr []"
    by (simp add: obj_get_def)
  show ?thesis using h empty_edge_list [OF h] by simp
qed

section \<open>First-seen order\<close>

lemma first_seen_keys: "key_of ` set (first_seen xs) = key_of ` set xs"
proof (induction xs rule: first_seen.induct)
  case 1
  show ?case by simp
next
  case (2 x xs)
  have "key_of ` set (x # xs) = insert (key_of x) (key_of ` set (filter (\<lambda>y. key_of y \<noteq> key_of x) xs))"
    by auto
  with 2 show ?case by simp
qed

lemma first_seen_subset: "set (first_seen xs) \<subseteq> set xs"
  by (induction xs rule: first_seen.induct) auto

lemma first_seen_distinct: "distinct (map key_of (first_seen xs))"
proof (induction xs rule: first_seen.induct)
  case 1
  show ?case by simp
next
  case (2 x xs)
  have "key_of x \<notin> key_of ` set (filter (\<lambda>y. key_of y \<noteq> key_of x) xs)"
    by auto
  then have "key_of x \<notin> key_of ` set (first_seen (filter (\<lambda>y. key_of y \<noteq> key_of x) xs))"
    unfolding first_seen_keys .
  with 2 show ?case by simp
qed

lemma first_seen_snoc:
  "first_seen (xs @ [x]) =
     (if key_of x \<in> key_of ` set xs then first_seen xs else first_seen xs @ [x])"
proof (induction xs rule: first_seen.induct)
  case 1
  show ?case by simp
next
  case (2 y ys)
  let ?f = "filter (\<lambda>z. key_of z \<noteq> key_of y)"
  show ?case
  proof (cases "key_of x = key_of y")
    case True
    then show ?thesis by simp
  next
    case False
    have mem: "key_of x \<in> key_of ` set (?f ys) \<longleftrightarrow> key_of x \<in> key_of ` set ys"
      using False by auto
    have "first_seen ((y # ys) @ [x]) = y # first_seen (?f ys @ [x])"
      using False by simp
    also have "\<dots> = y # (if key_of x \<in> key_of ` set (?f ys) then first_seen (?f ys)
                           else first_seen (?f ys) @ [x])"
      using 2 by simp
    finally show ?thesis using False mem by auto
  qed
qed

section \<open>Dictionary lookups\<close>

lemma dict_contains_iff: "dict_contains nk d k \<longleftrightarrow> nk k \<in> (\<lambda>p. nk (fst p)) ` set d"
  by (simp add: dict_contains_def case_prod_unfold)

lemma dict_set_absent: "\<not> dict_contains nk d k \<Longrightarrow> dict_set nk d k v = d @ [(k, v)]"
  by (induction d) (auto simp: dict_contains_iff)

lemma dict_get_absent: "\<not> dict_contains nk d k \<Longrightarrow> dict_get nk d k = None"
  by (induction d) (auto simp: dict_contains_iff)

lemma dict_get_present: "dict_contains nk d k \<Longrightarrow> \<exists>v. dict_get nk d k = Some v"
  by (induction d) (force simp: dict_contains_iff)+

lemma dict_get_append:
  "dict_get nk (d @ d') k = (case dict_get nk d k of None \<Rightarrow> dict_get nk d' k | Some v \<Rightarrow> Some v)"
  by (induction d) auto

lemma dict_get_nth:
  "distinct (map (\<lambda>p. nk (fst p)) d) \<Longrightarrow> i < length d \<Longrightarrow>
   dict_get nk d (fst (d ! i)) = Some (snd (d ! i))"
proof (induction d arbitrary: i)
  case Nil
  then show ?case by simp
next
  case (Cons p d)
  obtain k v where p: "p = (k, v)" by (cases p)
  show ?case
  proof (cases i)
    case 0
    then show ?thesis by (simp add: p)
  next
    case (Suc j)
    with Cons.prems have j: "j < length d" by simp
    then have "d ! j \<in> set d" by simp
    then have "nk (fst (d ! j)) \<in> (\<lambda>p. nk (fst p)) ` set d" by blast
    with Cons.prems(1) have "nk k \<noteq> nk (fst (d ! j))" by (force simp: p)
    with Cons.IH [of j] Cons.prems(1) j Suc show ?thesis by (simp add: p)
  qed
qed

lemma dict_get_key_eq:
  "nk k = nk k' \<Longrightarrow> dict_get nk d k = dict_get nk d k'"
  by (induction d) auto

section \<open>The vertex index\<close>

lemma add_vertex_first_seen:
  assumes "add_vertex vertex_ids v = Inr vertex_ids'"
    and "map fst vertex_ids = first_seen xs"
    and "map snd vertex_ids = [0..<length vertex_ids]"
  shows "map fst vertex_ids' = first_seen (xs @ [v]) \<and>
         map snd vertex_ids' = [0..<length vertex_ids'] \<and>
         key_of v \<noteq> None"
proof -
  from assms(1) obtain k where k: "key_of v = Some k"
    by (auto simp: add_vertex_def split: option.splits)
  have "(\<lambda>p. key_of (fst p)) ` set vertex_ids = key_of ` set (map fst vertex_ids)"
    by (simp add: image_image)
  also have "\<dots> = key_of ` set xs"
    by (simp only: assms(2) first_seen_keys)
  finally have c: "dict_contains key_of vertex_ids v \<longleftrightarrow> key_of v \<in> key_of ` set xs"
    by (simp add: dict_contains_iff)
  show ?thesis
  proof (cases "dict_contains key_of vertex_ids v")
    case True
    with assms k c show ?thesis
      by (simp add: add_vertex_def first_seen_snoc)
  next
    case False
    with assms(1) k have "vertex_ids' = vertex_ids @ [(v, length vertex_ids)]"
      by (simp add: add_vertex_def dict_set_absent)
    with assms k c False show ?thesis
      by (simp add: first_seen_snoc)
  qed
qed

lemma endpoints_snoc:
  "endpoints (edges @ [(s, t, w)]) = (endpoints edges @ [s]) @ [t]"
  by (simp add: endpoints_def)

lemma build_graph_snoc:
  "build_graph (edges @ [e]) =
     (case build_graph edges of Inl x \<Rightarrow> Inl x | Inr st \<Rightarrow> edge_step st e)"
  by (simp add: build_graph_def for_each_append split: sum.splits)

lemma edge_step_Inr:
  assumes "edge_step (vertex_ids, edge_tuples, weights) (s, t, w) = Inr (vertex_ids', edge_tuples', weights')"
  obtains v1 i j where "add_vertex vertex_ids s = Inr v1" "add_vertex v1 t = Inr vertex_ids'"
    "dict_get key_of vertex_ids' s = Some i" "dict_get key_of vertex_ids' t = Some j"
    "edge_tuples' = edge_tuples @ [(i, j)]" "weights' = weights @ [w]"
  using assms by (auto simp: dict_item_def split: sum.splits option.splits)

lemma build_graph_vertex_ids:
  "build_graph edges = Inr (vertex_ids, edge_tuples, weights) \<Longrightarrow>
   map fst vertex_ids = first_seen (endpoints edges) \<and>
   map snd vertex_ids = [0..<length vertex_ids] \<and>
   None \<notin> key_of ` set (endpoints edges)"
proof (induction edges arbitrary: vertex_ids edge_tuples weights rule: rev_induct)
  case Nil
  then show ?case by (simp add: build_graph_def endpoints_def)
next
  case (snoc e edges)
  obtain s t w where e: "e = (s, t, w)" by (cases e)
  from snoc.prems obtain v0 e0 w0 where
    b: "build_graph edges = Inr (v0, e0, w0)"
    and st: "edge_step (v0, e0, w0) (s, t, w) = Inr (vertex_ids, edge_tuples, weights)"
    by (auto simp: build_graph_snoc e split: sum.splits)
  from snoc.IH [OF b] have ih: "map fst v0 = first_seen (endpoints edges)"
    "map snd v0 = [0..<length v0]" "None \<notin> key_of ` set (endpoints edges)" by simp_all
  from st obtain v1 where a1: "add_vertex v0 s = Inr v1" and a2: "add_vertex v1 t = Inr vertex_ids"
    by (rule edge_step_Inr)
  from add_vertex_first_seen [OF a1 ih(1) ih(2)]
  have s1: "map fst v1 = first_seen (endpoints edges @ [s])" "map snd v1 = [0..<length v1]"
    "key_of s \<noteq> None" by simp_all
  from add_vertex_first_seen [OF a2 s1(1) s1(2)]
  have s2: "map fst vertex_ids = first_seen ((endpoints edges @ [s]) @ [t])"
    "map snd vertex_ids = [0..<length vertex_ids]" "key_of t \<noteq> None" by simp_all
  have "key_of ` set (endpoints (edges @ [e])) = insert (key_of s) (insert (key_of t) (key_of ` set (endpoints edges)))"
    by (auto simp: e endpoints_snoc)
  with s2 s1(3) ih(3) show ?case
    by (auto simp: e endpoints_snoc)
qed

lemma reverse_fold:
  "distinct (map snd xs) \<Longrightarrow> snd ` set xs \<inter> fst ` set acc = {} \<Longrightarrow>
   fold (\<lambda>(k, v) d. dict_set (\<lambda>x. x) d v k) xs acc = acc @ map (\<lambda>(k, v). (v, k)) xs"
proof (induction xs arbitrary: acc)
  case Nil
  then show ?case by simp
next
  case (Cons p xs)
  obtain k v where p: "p = (k, v)" by (cases p)
  from Cons.prems have "v \<notin> fst ` set acc" by (auto simp: p)
  then have "\<not> dict_contains (\<lambda>x. x) acc v" by (simp add: dict_contains_iff)
  then have step: "dict_set (\<lambda>x. x) acc v k = acc @ [(v, k)]" by (rule dict_set_absent)
  from Cons.prems have "distinct (map snd xs)" "snd ` set xs \<inter> fst ` set (acc @ [(v, k)]) = {}"
    by (auto simp: p)
  from Cons.IH [OF this] show ?case by (simp add: p step)
qed

lemma reverse_mapping_swap:
  "distinct (map snd vertex_ids) \<Longrightarrow>
   reverse_mapping vertex_ids = map (\<lambda>(k, v). (v, k)) vertex_ids"
  by (simp add: reverse_mapping_def reverse_fold)

lemma reverse_mapping_get:
  assumes "map snd vertex_ids = [0..<length vertex_ids]"
  shows "dict_get (\<lambda>x. x) (reverse_mapping vertex_ids) i =
           (if i < length vertex_ids then Some (fst (vertex_ids ! i)) else None)"
proof -
  let ?d = "map (\<lambda>(k, v). (v, k)) vertex_ids"
  have keys: "map fst ?d = [0..<length vertex_ids]"
    using assms by (simp add: case_prod_unfold comp_def)
  have d: "distinct (map snd vertex_ids)" by (simp add: assms)
  have r: "reverse_mapping vertex_ids = ?d" using d by (rule reverse_mapping_swap)
  show ?thesis
  proof (cases "i < length vertex_ids")
    case True
    have "snd (vertex_ids ! i) = i"
      using True assms by (metis nth_map nth_upt add_0 length_map)
    then have nth: "?d ! i = (i, fst (vertex_ids ! i))"
      using True by (simp add: case_prod_unfold)
    have "distinct (map (\<lambda>p. fst p) ?d)" using keys by (simp add: comp_def)
    from dict_get_nth [of "\<lambda>x. x" ?d i, OF this] True nth
    show ?thesis by (simp add: r)
  next
    case False
    have "fst ` set ?d = set (map fst ?d)" by (simp only: set_map)
    also have "\<dots> = {0..<length vertex_ids}" by (simp only: keys set_upt)
    finally have "\<not> dict_contains (\<lambda>x. x) ?d i"
      using False by (simp add: dict_contains_iff)
    then show ?thesis using False by (simp add: r dict_get_absent)
  qed
qed

lemma dict_get_first_seen:
  assumes "distinct (map key_of (map fst d))" and "key_of v \<in> key_of ` set (map fst d)"
  shows "\<exists>i<length d. dict_get key_of d v = Some (snd (d ! i)) \<and> key_of (fst (d ! i)) = key_of v"
proof -
  from assms(2) obtain p where "p \<in> set d" "key_of (fst p) = key_of v" by auto
  then obtain i where i: "i < length d" "key_of (fst (d ! i)) = key_of v"
    by (auto simp: in_set_conv_nth)
  have "distinct (map (\<lambda>p. key_of (fst p)) d)" using assms(1) by (simp add: comp_def)
  from dict_get_nth [OF this i(1)] have "dict_get key_of d (fst (d ! i)) = Some (snd (d ! i))" .
  with dict_get_key_eq [of key_of "fst (d ! i)" v d] i show ?thesis by auto
qed

lemma add_vertex_extends:
  "add_vertex vertex_ids v = Inr vertex_ids' \<Longrightarrow> \<exists>d. vertex_ids' = vertex_ids @ d"
  by (auto simp: add_vertex_def dict_set_absent split: option.splits if_splits)

lemma dict_get_extends:
  "dict_get nk d k = Some v \<Longrightarrow> dict_get nk (d @ d') k = Some v"
  by (simp add: dict_get_append)

lemma build_graph_edge_tuples:
  "build_graph edges = Inr (vertex_ids, edge_tuples, weights) \<Longrightarrow>
   list_all2 (\<lambda>(s, t, w) (i, j).
      dict_get key_of vertex_ids s = Some i \<and> dict_get key_of vertex_ids t = Some j)
     edges edge_tuples \<and>
   weights = map (\<lambda>(s, t, w). w) edges"
proof (induction edges arbitrary: vertex_ids edge_tuples weights rule: rev_induct)
  case Nil
  then show ?case by (simp add: build_graph_def)
next
  case (snoc e edges)
  obtain s t w where e: "e = (s, t, w)" by (cases e)
  from snoc.prems obtain v0 e0 w0 where
    b: "build_graph edges = Inr (v0, e0, w0)"
    and st: "edge_step (v0, e0, w0) (s, t, w) = Inr (vertex_ids, edge_tuples, weights)"
    by (auto simp: build_graph_snoc e split: sum.splits)
  from st obtain v1 i j where a1: "add_vertex v0 s = Inr v1"
    and a2: "add_vertex v1 t = Inr vertex_ids"
    and g: "dict_get key_of vertex_ids s = Some i" "dict_get key_of vertex_ids t = Some j"
    and r: "edge_tuples = e0 @ [(i, j)]" "weights = w0 @ [w]"
    by (rule edge_step_Inr)
  from add_vertex_extends [OF a1] add_vertex_extends [OF a2]
  obtain d where d: "vertex_ids = v0 @ d" by auto
  from snoc.IH [OF b] have ih: "list_all2 (\<lambda>(s, t, w) (i, j).
      dict_get key_of v0 s = Some i \<and> dict_get key_of v0 t = Some j) edges e0"
    and w0: "w0 = map (\<lambda>(s, t, w). w) edges" by simp_all
  have "list_all2 (\<lambda>(s, t, w) (i, j).
      dict_get key_of vertex_ids s = Some i \<and> dict_get key_of vertex_ids t = Some j) edges e0"
    by (rule list_all2_mono [OF ih]) (auto simp: d dict_get_extends)
  with g r w0 show ?case
    by (simp add: e list_all2_appendI)
qed

lemma add_vertex_returns:
  assumes "key_of v \<noteq> None"
  shows "\<exists>vertex_ids'. add_vertex vertex_ids v = Inr vertex_ids' \<and>
           dict_contains key_of vertex_ids' v"
proof (cases "dict_contains key_of vertex_ids v")
  case True
  with assms show ?thesis by (auto simp: add_vertex_def)
next
  case False
  then have "dict_set key_of vertex_ids v (length vertex_ids) = vertex_ids @ [(v, length vertex_ids)]"
    by (rule dict_set_absent)
  with assms False show ?thesis
    by (auto simp: add_vertex_def dict_contains_iff)
qed

lemma edge_step_returns:
  assumes "key_of s \<noteq> None" and "key_of t \<noteq> None"
  shows "\<exists>st. edge_step (vertex_ids, edge_tuples, weights) (s, t, w) = Inr st"
proof -
  from add_vertex_returns [OF assms(1)] obtain v1 where
    a1: "add_vertex vertex_ids s = Inr v1" and c1: "dict_contains key_of v1 s" by blast
  from add_vertex_returns [OF assms(2)] obtain v2 where
    a2: "add_vertex v1 t = Inr v2" and c2: "dict_contains key_of v2 t" by blast
  from dict_get_present [OF c1] obtain i where "dict_get key_of v1 s = Some i" by blast
  moreover from add_vertex_extends [OF a2] obtain d where "v2 = v1 @ d" by blast
  ultimately have gs: "dict_get key_of v2 s = Some i" by (simp add: dict_get_extends)
  from dict_get_present [OF c2] obtain j where gt: "dict_get key_of v2 t = Some j" by blast
  from a1 a2 gs gt show ?thesis by (simp add: dict_item_def)
qed

lemma build_graph_returns:
  "None \<notin> key_of ` set (endpoints edges) \<Longrightarrow> \<exists>st. build_graph edges = Inr st"
proof (induction edges rule: rev_induct)
  case Nil
  show ?case by (simp add: build_graph_def)
next
  case (snoc e edges)
  obtain s t w where e: "e = (s, t, w)" by (cases e)
  from snoc.prems have h: "None \<notin> key_of ` set (endpoints edges)"
    "key_of s \<noteq> None" "key_of t \<noteq> None"
    by (force simp: e endpoints_snoc)+
  from snoc.IH [OF h(1)] obtain v0 e0 w0 where "build_graph edges = Inr (v0, e0, w0)"
    by (metis prod_cases3)
  with edge_step_returns [OF h(2) h(3), of v0 e0 w0 w] show ?case
    by (simp add: build_graph_snoc e)
qed

lemma build_graph_bijection:
  assumes "build_graph edges = Inr (vertex_ids, edge_tuples, weights)"
  shows "map fst vertex_ids = first_seen (endpoints edges) \<and>
         map snd vertex_ids = [0..<length vertex_ids] \<and>
         (\<forall>v\<in>set (endpoints edges). \<forall>w\<in>set (endpoints edges).
            (dict_get key_of vertex_ids v = dict_get key_of vertex_ids w) = (key_of v = key_of w)) \<and>
         (\<forall>v\<in>set (endpoints edges). \<exists>i<length vertex_ids.
            dict_get key_of vertex_ids v = Some i \<and>
            dict_get (\<lambda>x. x) (reverse_mapping vertex_ids) i = Some (fst (vertex_ids ! i)) \<and>
            fst (vertex_ids ! i) \<in> set (endpoints edges) \<and>
            key_of (fst (vertex_ids ! i)) = key_of v) \<and>
         (\<forall>i<length vertex_ids.
            dict_get key_of vertex_ids (fst (vertex_ids ! i)) = Some i \<and>
            dict_get (\<lambda>x. x) (reverse_mapping vertex_ids) i = Some (fst (vertex_ids ! i))) \<and>
         list_all2 (\<lambda>(s, t, w) (i, j).
            dict_get key_of vertex_ids s = Some i \<and> dict_get key_of vertex_ids t = Some j)
           edges edge_tuples \<and>
         (inj_on key_of (set (endpoints edges)) \<longrightarrow>
            (\<forall>v\<in>set (endpoints edges). \<exists>i<length vertex_ids.
               dict_get key_of vertex_ids v = Some i \<and>
               dict_get (\<lambda>x. x) (reverse_mapping vertex_ids) i = Some v))"
proof -
  from build_graph_vertex_ids [OF assms]
  have fs: "map fst vertex_ids = first_seen (endpoints edges)"
    and sn: "map snd vertex_ids = [0..<length vertex_ids]" by simp_all
  have dk: "distinct (map key_of (map fst vertex_ids))"
    by (simp only: fs first_seen_distinct)
  have ks: "key_of ` set (map fst vertex_ids) = key_of ` set (endpoints edges)"
    by (simp only: fs first_seen_keys)
  have sub: "set (map fst vertex_ids) \<subseteq> set (endpoints edges)"
    by (simp only: fs first_seen_subset)
  have snd_nth: "snd (vertex_ids ! i) = i" if "i < length vertex_ids" for i
    using that sn by (metis nth_map nth_upt add_0 length_map)
  have rv: "dict_get (\<lambda>x. x) (reverse_mapping vertex_ids) i = Some (fst (vertex_ids ! i))"
    if "i < length vertex_ids" for i
    using that by (simp add: reverse_mapping_get [OF sn])
  have fwd: "\<exists>i<length vertex_ids. dict_get key_of vertex_ids v = Some i \<and>
               key_of (fst (vertex_ids ! i)) = key_of v"
    if "v \<in> set (endpoints edges)" for v
  proof -
    from that ks have "key_of v \<in> key_of ` set (map fst vertex_ids)" by blast
    from dict_get_first_seen [OF dk this] snd_nth show ?thesis by auto
  qed
  have mem: "fst (vertex_ids ! i) \<in> set (endpoints edges)" if "i < length vertex_ids" for i
    using that sub by (metis nth_map nth_mem length_map subsetD)
  have inj: "(dict_get key_of vertex_ids v = dict_get key_of vertex_ids w) = (key_of v = key_of w)"
    if "v \<in> set (endpoints edges)" "w \<in> set (endpoints edges)" for v w
  proof
    assume eq: "dict_get key_of vertex_ids v = dict_get key_of vertex_ids w"
    from fwd [OF that(1)] fwd [OF that(2)] eq show "key_of v = key_of w" by auto
  next
    assume "key_of v = key_of w"
    then show "dict_get key_of vertex_ids v = dict_get key_of vertex_ids w"
      by (rule dict_get_key_eq)
  qed
  have bwd: "dict_get key_of vertex_ids (fst (vertex_ids ! i)) = Some i"
    if "i < length vertex_ids" for i
  proof -
    have "distinct (map (\<lambda>p. key_of (fst p)) vertex_ids)" using dk by (simp add: comp_def)
    from dict_get_nth [OF this that] snd_nth [OF that] show ?thesis by simp
  qed
  from build_graph_edge_tuples [OF assms]
  have et: "list_all2 (\<lambda>(s, t, w) (i, j).
            dict_get key_of vertex_ids s = Some i \<and> dict_get key_of vertex_ids t = Some j)
           edges edge_tuples" by simp
  have exact: "\<exists>i<length vertex_ids. dict_get key_of vertex_ids v = Some i \<and>
                 dict_get (\<lambda>x. x) (reverse_mapping vertex_ids) i = Some v"
    if "inj_on key_of (set (endpoints edges))" "v \<in> set (endpoints edges)" for v
  proof -
    from fwd [OF that(2)] obtain i where i: "i < length vertex_ids"
      "dict_get key_of vertex_ids v = Some i" "key_of (fst (vertex_ids ! i)) = key_of v"
      by auto
    from that(1) mem [OF i(1)] that(2) i(3) have "fst (vertex_ids ! i) = v"
      by (auto dest: inj_onD)
    with i rv [OF i(1)] show ?thesis by auto
  qed
  show ?thesis
    using fs sn inj fwd rv mem bwd et exact by (intro conjI ballI allI impI) blast+
qed

text \<open>
  C5. When every identifier of the edges is hashable (a string, a number, a boolean or
  \<^verbatim>\<open>null\<close>) the loop over the edges completes; \<open>vertex_ids\<close> then lists the distinct identifiers
  in first-seen order and gives them the indices \<open>0, \<dots>, n - 1\<close> in that order. Two
  identifiers of the input have the same index exactly when Python compares them equal, every
  identifier of the input has an index below \<open>n\<close>, and the reverse mapping sends every
  index \<open>i < n\<close> back to the identifier stored for it, whose index is \<open>i\<close> again. The
  index pair recorded for an edge is the final index of its source and of its target, so
  the mapping is one and the same during the whole call. Identifiers are compared the way
  the dict compares them (\<open>key_of\<close>): the identifier stored for an index is the first one
  seen among those that compare equal, and where no two different identifiers of the input
  compare equal (all of them strings, say) it is the identifier itself.
\<close>

theorem vertex_ids_bijection:
  assumes "None \<notin> key_of ` set (endpoints edges)"
  shows "\<exists>vertex_ids edge_tuples weights.
           build_graph edges = Inr (vertex_ids, edge_tuples, weights) \<and>
           map fst vertex_ids = first_seen (endpoints edges) \<and>
           map snd vertex_ids = [0..<length vertex_ids] \<and>
           (\<forall>v\<in>set (endpoints edges). \<forall>w\<in>set (endpoints edges).
              (dict_get key_of vertex_ids v = dict_get key_of vertex_ids w) = (key_of v = key_of w)) \<and>
           (\<forall>v\<in>set (endpoints edges). \<exists>i<length vertex_ids.
              dict_get key_of vertex_ids v = Some i \<and>
              dict_get (\<lambda>x. x) (reverse_mapping vertex_ids) i = Some (fst (vertex_ids ! i)) \<and>
              fst (vertex_ids ! i) \<in> set (endpoints edges) \<and>
              key_of (fst (vertex_ids ! i)) = key_of v) \<and>
           (\<forall>i<length vertex_ids.
              dict_get key_of vertex_ids (fst (vertex_ids ! i)) = Some i \<and>
              dict_get (\<lambda>x. x) (reverse_mapping vertex_ids) i = Some (fst (vertex_ids ! i))) \<and>
           list_all2 (\<lambda>(s, t, w) (i, j).
              dict_get key_of vertex_ids s = Some i \<and> dict_get key_of vertex_ids t = Some j)
             edges edge_tuples \<and>
           (inj_on key_of (set (endpoints edges)) \<longrightarrow>
              (\<forall>v\<in>set (endpoints edges). \<exists>i<length vertex_ids.
                 dict_get key_of vertex_ids v = Some i \<and>
                 dict_get (\<lambda>x. x) (reverse_mapping vertex_ids) i = Some v))"
proof -
  from build_graph_returns [OF assms] obtain vertex_ids edge_tuples weights where
    b: "build_graph edges = Inr (vertex_ids, edge_tuples, weights)" by (metis prod_cases3)
  from b build_graph_bijection [OF b] show ?thesis by blast
qed

theorem vertex_ids_bijection_witness:
  "None \<notin> key_of ` set (endpoints [(JStr ''a'', JStr ''b'', Fin 1), (JStr ''c'', JStr ''a'', Fin 2)]) \<and>
   build_graph [(JStr ''a'', JStr ''b'', Fin 1), (JStr ''c'', JStr ''a'', Fin 2)] =
     Inr ([(JStr ''a'', 0), (JStr ''b'', 1), (JStr ''c'', 2)], [(0, 1), (2, 0)], [Fin 1, Fin 2]) \<and>
   (\<exists>vertex_ids edge_tuples weights.
      build_graph [(JStr ''a'', JStr ''b'', Fin 1), (JStr ''c'', JStr ''a'', Fin 2)] =
        Inr (vertex_ids, edge_tuples, weights) \<and>
      map fst vertex_ids =
        first_seen (endpoints [(JStr ''a'', JStr ''b'', Fin 1), (JStr ''c'', JStr ''a'', Fin 2)]) \<and>
      map snd vertex_ids = [0..<length vertex_ids])"
proof -
  have h: "None \<notin> key_of ` set (endpoints [(JStr ''a'', JStr ''b'', Fin 1), (JStr ''c'', JStr ''a'', Fin 2)])"
    by (simp add: endpoints_def)
  have e: "build_graph [(JStr ''a'', JStr ''b'', Fin 1), (JStr ''c'', JStr ''a'', Fin 2)] =
     Inr ([(JStr ''a'', 0), (JStr ''b'', 1), (JStr ''c'', 2)], [(0, 1), (2, 0)], [Fin 1, Fin 2])"
    by (simp add: run_defs)
  from vertex_ids_bijection [OF h] have
    "\<exists>vertex_ids edge_tuples weights.
      build_graph [(JStr ''a'', JStr ''b'', Fin 1), (JStr ''c'', JStr ''a'', Fin 2)] =
        Inr (vertex_ids, edge_tuples, weights) \<and>
      map fst vertex_ids =
        first_seen (endpoints [(JStr ''a'', JStr ''b'', Fin 1), (JStr ''c'', JStr ''a'', Fin 2)]) \<and>
      map snd vertex_ids = [0..<length vertex_ids]"
    by blast
  with h e show ?thesis by blast
qed

section \<open>Grouping by community\<close>

lemma dict_set_present_values:
  "dict_get nk d k = Some m \<Longrightarrow>
   mset (concat (map snd (dict_set nk d k (m @ [v])))) = mset (concat (map snd d)) + {#v#}"
  by (induction d) (auto split: if_splits)

lemma group_step_Inr:
  assumes "group_step id_to_vertex cbi (i, c) = Inr cbi'"
  shows "\<exists>v. dict_get (\<lambda>x. x) id_to_vertex i = Some v \<and>
             mset (concat (map snd cbi')) = mset (concat (map snd cbi)) + {#v#}"
proof (cases "dict_contains (\<lambda>x. x) cbi c")
  case True
  then obtain m where m: "dict_get (\<lambda>x. x) cbi c = Some m"
    using dict_get_present by fastforce
  with assms True obtain v where v: "dict_get (\<lambda>x. x) id_to_vertex i = Some v"
    and r: "cbi' = dict_set (\<lambda>x. x) cbi c (m @ [v])"
    by (auto simp: dict_item_def split: option.splits)
  from dict_set_present_values [OF m, of v] v r show ?thesis by simp
next
  case False
  then have s: "dict_set (\<lambda>x. x) cbi c [] = cbi @ [(c, [])]" by (rule dict_set_absent)
  from False have g: "dict_get (\<lambda>x. x) (cbi @ [(c, [])]) c = Some []"
    by (simp add: dict_get_append dict_get_absent)
  with assms False s obtain v where v: "dict_get (\<lambda>x. x) id_to_vertex i = Some v"
    and r: "cbi' = dict_set (\<lambda>x. x) (cbi @ [(c, [])]) c ([] @ [v])"
    by (auto simp: dict_item_def split: option.splits)
  from dict_set_present_values [OF g, of v] v r show ?thesis by simp
qed

lemma group_by_community_snoc:
  "group_by_community r (ms @ [m]) =
     (case group_by_community r ms of Inl e \<Rightarrow> Inl e
      | Inr cbi \<Rightarrow> group_step r cbi (length ms, m))"
  by (simp add: group_by_community_def enumerate_append_eq for_each_append split: sum.splits)

lemma group_by_community_members:
  assumes r: "\<And>i. dict_get (\<lambda>x. x) id_to_vertex i = (if i < length names then Some (names ! i) else None)"
  shows "group_by_community id_to_vertex membership = Inr cbi \<Longrightarrow>
         length membership \<le> length names \<and>
         mset (concat (map snd cbi)) = mset (take (length membership) names)"
proof (induction membership arbitrary: cbi rule: rev_induct)
  case Nil
  then show ?case by (simp add: group_by_community_def)
next
  case (snoc m ms)
  from snoc.prems obtain c0 where
    b: "group_by_community id_to_vertex ms = Inr c0"
    and st: "group_step id_to_vertex c0 (length ms, m) = Inr cbi"
    by (auto simp: group_by_community_snoc split: sum.splits)
  from snoc.IH [OF b] have ih: "length ms \<le> length names"
    "mset (concat (map snd c0)) = mset (take (length ms) names)" by simp_all
  from group_step_Inr [OF st] obtain v where
    v: "dict_get (\<lambda>x. x) id_to_vertex (length ms) = Some v"
    and ms: "mset (concat (map snd cbi)) = mset (concat (map snd c0)) + {#v#}" by auto
  from v r [of "length ms"] have lt: "length ms < length names" and ve: "v = names ! length ms"
    by (auto split: if_splits)
  from lt ve ms ih(2) show ?case
    by (simp add: take_Suc_conv_app_nth)
qed

lemma detect_communities_Inr:
  assumes "detect_communities lib edges resolution n_iterations = Inr comms" and "edges \<noteq> []"
  obtains vertex_ids edge_tuples weights membership cbi where
    "build_graph edges = Inr (vertex_ids, edge_tuples, weights)"
    "lib \<lparr>vcount = length vertex_ids, es = edge_tuples, es_weight = weights\<rparr>
       weights resolution n_iterations = Inr membership"
    "group_by_community (reverse_mapping vertex_ids) membership = Inr cbi"
    "comms = map (\<lambda>(c, entity_ids). \<lparr>level = 0, entity_ids = entity_ids\<rparr>) cbi"
  using assms by (auto simp: detect_communities_def Let_def split: sum.splits prod.splits)

lemma detect_communities_members:
  assumes "detect_communities lib edges resolution n_iterations = Inr comms"
  shows "\<exists>k \<le> length (first_seen (endpoints edges)).
           mset (concat (map entity_ids comms)) = mset (take k (first_seen (endpoints edges))) \<and>
           (one_label_per_vertex lib \<longrightarrow> edges \<noteq> [] \<longrightarrow> k = length (first_seen (endpoints edges)))"
proof (cases "edges = []")
  case True
  with assms show ?thesis by (simp add: detect_communities_def endpoints_def)
next
  case False
  from assms False obtain vertex_ids edge_tuples weights membership cbi where
    b: "build_graph edges = Inr (vertex_ids, edge_tuples, weights)"
    and l: "lib \<lparr>vcount = length vertex_ids, es = edge_tuples, es_weight = weights\<rparr>
       weights resolution n_iterations = Inr membership"
    and g: "group_by_community (reverse_mapping vertex_ids) membership = Inr cbi"
    and c: "comms = map (\<lambda>(c, entity_ids). \<lparr>level = 0, entity_ids = entity_ids\<rparr>) cbi"
    by (rule detect_communities_Inr)
  from build_graph_vertex_ids [OF b]
  have fs: "map fst vertex_ids = first_seen (endpoints edges)"
    and sn: "map snd vertex_ids = [0..<length vertex_ids]" by simp_all
  have len: "length (first_seen (endpoints edges)) = length vertex_ids"
    using fs by (metis length_map)
  have r: "dict_get (\<lambda>x. x) (reverse_mapping vertex_ids) i =
      (if i < length (first_seen (endpoints edges)) then Some (first_seen (endpoints edges) ! i) else None)" for i
    using reverse_mapping_get [OF sn, of i] len fs by (metis nth_map)
  from group_by_community_members [OF r g]
  have m: "length membership \<le> length (first_seen (endpoints edges))"
    "mset (concat (map snd cbi)) = mset (take (length membership) (first_seen (endpoints edges)))"
    by simp_all
  have e: "map entity_ids comms = map snd cbi"
    by (simp add: c case_prod_unfold comp_def)
  have "one_label_per_vertex lib \<Longrightarrow> length membership = length (first_seen (endpoints edges))"
    using l len by (auto simp: one_label_per_vertex_def)
  with m e show ?thesis by auto
qed

text \<open>
  The call returns whenever the identifiers are hashable and the library returns a
  membership list.
\<close>

lemma group_step_returns:
  assumes "dict_get (\<lambda>x. x) id_to_vertex i = Some v"
  shows "\<exists>cbi'. group_step id_to_vertex cbi (i, c) = Inr cbi'"
proof (cases "dict_contains (\<lambda>x. x) cbi c")
  case True
  from dict_get_present [OF True] obtain m where "dict_get (\<lambda>x. x) cbi c = Some m" by blast
  with True assms show ?thesis by (simp add: dict_item_def)
next
  case False
  then have s: "dict_set (\<lambda>x. x) cbi c [] = cbi @ [(c, [])]" by (rule dict_set_absent)
  from False have "dict_get (\<lambda>x. x) (cbi @ [(c, [])]) c = Some []"
    by (simp add: dict_get_append dict_get_absent)
  with False s assms show ?thesis by (simp add: dict_item_def)
qed

lemma group_by_community_returns:
  "(\<And>i. i < length membership \<Longrightarrow> \<exists>v. dict_get (\<lambda>x. x) id_to_vertex i = Some v) \<Longrightarrow>
   \<exists>cbi. group_by_community id_to_vertex membership = Inr cbi"
proof (induction membership rule: rev_induct)
  case Nil
  show ?case by (simp add: group_by_community_def)
next
  case (snoc m ms)
  from snoc.prems have "\<exists>cbi. group_by_community id_to_vertex ms = Inr cbi"
    by (intro snoc.IH) simp
  then obtain c0 where c0: "group_by_community id_to_vertex ms = Inr c0" ..
  from snoc.prems [of "length ms"] obtain v where "dict_get (\<lambda>x. x) id_to_vertex (length ms) = Some v"
    by auto
  from group_step_returns [OF this, of c0 m] c0 show ?case
    by (simp add: group_by_community_snoc)
qed

lemma detect_communities_returns:
  assumes "None \<notin> key_of ` set (endpoints edges)"
    and "one_label_per_vertex lib"
    and "\<And>g weights. \<exists>membership. lib g weights resolution n_iterations = Inr membership"
  shows "\<exists>comms. detect_communities lib edges resolution n_iterations = Inr comms"
proof (cases "edges = []")
  case True
  then show ?thesis by (simp add: detect_communities_def)
next
  case False
  from build_graph_returns [OF assms(1)] obtain vertex_ids edge_tuples weights where
    b: "build_graph edges = Inr (vertex_ids, edge_tuples, weights)" by (metis prod_cases3)
  let ?g = "\<lparr>vcount = length vertex_ids, es = edge_tuples, es_weight = weights\<rparr>"
  from assms(3) obtain membership where
    l: "lib ?g weights resolution n_iterations = Inr membership" by blast
  with assms(2) have len: "length membership = length vertex_ids"
    by (auto simp: one_label_per_vertex_def)
  from build_graph_vertex_ids [OF b] have sn: "map snd vertex_ids = [0..<length vertex_ids]"
    by simp
  have "\<exists>cbi. group_by_community (reverse_mapping vertex_ids) membership = Inr cbi"
    by (rule group_by_community_returns) (simp add: reverse_mapping_get [OF sn] len)
  then obtain cbi where "group_by_community (reverse_mapping vertex_ids) membership = Inr cbi" ..
  with False b l show ?thesis
    by (simp add: detect_communities_def)
qed

text \<open>
  C2. For a non-empty edge list, when the library returns one label per vertex and the
  call returns communities, the identifiers listed in all the communities together are
  pairwise different (none is in two communities, none twice in one), they are exactly the
  identifiers of the input edges as Python compares them, and each is an identifier of the
  input.
\<close>

theorem every_vertex_in_one_community:
  assumes "edges \<noteq> []"
    and "one_label_per_vertex lib"
    and "detect_communities lib edges resolution n_iterations = Inr comms"
  shows "distinct (map key_of (concat (map entity_ids comms))) \<and>
         key_of ` set (concat (map entity_ids comms)) = key_of ` set (endpoints edges) \<and>
         set (concat (map entity_ids comms)) \<subseteq> set (endpoints edges)"
proof -
  let ?out = "concat (map entity_ids comms)"
  let ?fs = "first_seen (endpoints edges)"
  from detect_communities_members [OF assms(3)] assms(1,2)
  have m: "mset ?out = mset ?fs" by auto
  then have "mset (map key_of ?out) = mset (map key_of ?fs)" by simp
  then have d: "distinct (map key_of ?out)"
    using first_seen_distinct [of "endpoints edges"] by (metis mset_eq_imp_distinct_iff)
  from m have s: "set ?out = set ?fs" by (rule mset_eq_setD)
  show ?thesis
    using d s first_seen_keys [of "endpoints edges"] first_seen_subset [of "endpoints edges"]
    by simp
qed

theorem every_vertex_in_one_community_witness:
  "[(JStr ''a'', JStr ''b'', Fin 1), (JStr ''c'', JStr ''a'', Fin 2)] \<noteq> [] \<and>
   one_label_per_vertex one_community \<and>
   detect_communities one_community
     [(JStr ''a'', JStr ''b'', Fin 1), (JStr ''c'', JStr ''a'', Fin 2)] (JFloat (Fin 1)) (JInt (- 1)) =
     Inr [\<lparr>level = 0, entity_ids = [JStr ''a'', JStr ''b'', JStr ''c'']\<rparr>] \<and>
   distinct (map key_of (concat (map entity_ids
     [\<lparr>level = 0, entity_ids = [JStr ''a'', JStr ''b'', JStr ''c'']\<rparr>])))"
proof -
  have h1: "[(JStr ''a'', JStr ''b'', Fin 1), (JStr ''c'', JStr ''a'', Fin 2)] \<noteq> []"
    by simp
  have h2: "one_label_per_vertex one_community"
    by (auto simp: one_label_per_vertex_def one_community_def)
  have h3: "detect_communities one_community
     [(JStr ''a'', JStr ''b'', Fin 1), (JStr ''c'', JStr ''a'', Fin 2)] (JFloat (Fin 1)) (JInt (- 1)) =
     Inr [\<lparr>level = 0, entity_ids = [JStr ''a'', JStr ''b'', JStr ''c'']\<rparr>]"
    by (simp add: run_defs one_community_def numeral_3_eq_3)
  from every_vertex_in_one_community [OF h1 h2 h3] h1 h2 h3 show ?thesis by blast
qed

section \<open>The output envelope\<close>

lemma count_vertices_card:
  "count_vertices edge_tuples = Inr n \<Longrightarrow> n = card (key_of ` set (endpoints edge_tuples))"
  by (auto simp: count_vertices_def length_remdups_card_conv split: if_splits)

lemma detect_communities_level:
  "detect_communities lib edges resolution n_iterations = Inr comms \<Longrightarrow>
   \<forall>c\<in>set comms. level c = 0"
  by (auto simp: detect_communities_def Let_def split: if_splits sum.splits prod.splits)

lemma main_Success:
  assumes "main b lib inp = Success r"
  obtains kvs edge_list edge_tuples comms n where
    "inp = Parsed (JObj kvs)"
    "py_iter (obj_get kvs ''edges'' (JArr [])) = Inr edge_list"
    "convert_edges b edge_list = Inr edge_tuples"
    "detect_communities lib edge_tuples (obj_get kvs ''resolution'' (JFloat (Fin 1)))
       (obj_get kvs ''n_iterations'' (JInt (- 1))) = Inr comms"
    "count_vertices edge_tuples = Inr n"
    "r = \<lparr>communities = comms, vertex_count = n, edge_count = length edge_tuples,
          community_count = length comms\<rparr>"
  using assms
  by (auto simp: main_def Let_def except_Exception_def
      split: stdin.splits json.splits sum.splits if_splits)

text \<open>
  C8. A successful run has read a JSON object whose edges converted without an exception.
  Every community of its result has level 0 and lists identifiers of the input edges only;
  \<open>vertex_count\<close> is the number of distinct identifiers of the edges, \<open>edge_count\<close> the
  number of edges and \<open>community_count\<close> the number of communities.
\<close>

theorem output_envelope:
  assumes "main b lib inp = Success r"
  shows "\<exists>kvs edge_list edge_tuples.
           inp = Parsed (JObj kvs) \<and>
           py_iter (obj_get kvs ''edges'' (JArr [])) = Inr edge_list \<and>
           convert_edges b edge_list = Inr edge_tuples \<and>
           (\<forall>c\<in>set (communities r).
              level c = 0 \<and> set (entity_ids c) \<subseteq> set (endpoints edge_tuples)) \<and>
           vertex_count r = card (key_of ` set (endpoints edge_tuples)) \<and>
           edge_count r = length edge_list \<and>
           community_count r = length (communities r)"
proof -
  from assms obtain kvs edge_list edge_tuples comms n where
    i: "inp = Parsed (JObj kvs)"
    and p: "py_iter (obj_get kvs ''edges'' (JArr [])) = Inr edge_list"
    and c: "convert_edges b edge_list = Inr edge_tuples"
    and d: "detect_communities lib edge_tuples (obj_get kvs ''resolution'' (JFloat (Fin 1)))
       (obj_get kvs ''n_iterations'' (JInt (- 1))) = Inr comms"
    and v: "count_vertices edge_tuples = Inr n"
    and r: "r = \<lparr>communities = comms, vertex_count = n, edge_count = length edge_tuples,
          community_count = length comms\<rparr>"
    by (rule main_Success)
  from convert_edges_Inr [OF c] have len: "length edge_tuples = length edge_list"
    by (simp add: list_all2_lengthD)
  from detect_communities_members [OF d] obtain k where
    "mset (concat (map entity_ids comms)) = mset (take k (first_seen (endpoints edge_tuples)))"
    by auto
  then have "set (concat (map entity_ids comms)) = set (take k (first_seen (endpoints edge_tuples)))"
    by (rule mset_eq_setD)
  also have "\<dots> \<subseteq> set (first_seen (endpoints edge_tuples))" by (rule set_take_subset)
  also have "\<dots> \<subseteq> set (endpoints edge_tuples)" by (rule first_seen_subset)
  finally have sub: "set (entity_ids c) \<subseteq> set (endpoints edge_tuples)" if "c \<in> set comms" for c
    using that by auto
  have lv: "\<forall>c\<in>set comms. level c = 0"
    using d by (rule detect_communities_level)
  have n: "n = card (key_of ` set (endpoints edge_tuples))"
    using v by (rule count_vertices_card)
  show ?thesis
    using i p c sub lv n len by (auto simp: r)
qed

theorem output_envelope_witness:
  "main plain_builtins singletons
     (Parsed (JObj [(''edges'', JArr [JArr [JStr ''a'', JStr ''b''], JArr [JStr ''b'', JStr ''c'', JInt 2]])])) =
     Success \<lparr>communities = [\<lparr>level = 0, entity_ids = [JStr ''a'']\<rparr>,
                              \<lparr>level = 0, entity_ids = [JStr ''b'']\<rparr>,
                              \<lparr>level = 0, entity_ids = [JStr ''c'']\<rparr>],
              vertex_count = 3, edge_count = 2, community_count = 3\<rparr> \<and>
   (\<exists>kvs edge_list edge_tuples.
      Parsed (JObj [(''edges'', JArr [JArr [JStr ''a'', JStr ''b''], JArr [JStr ''b'', JStr ''c'', JInt 2]])]) =
        Parsed (JObj kvs) \<and>
      py_iter (obj_get kvs ''edges'' (JArr [])) = Inr edge_list \<and>
      convert_edges plain_builtins edge_list = Inr edge_tuples \<and>
      (3::nat) = card (key_of ` set (endpoints edge_tuples)) \<and> (2::nat) = length edge_list)"
proof -
  have h: "main plain_builtins singletons
     (Parsed (JObj [(''edges'', JArr [JArr [JStr ''a'', JStr ''b''], JArr [JStr ''b'', JStr ''c'', JInt 2]])])) =
     Success \<lparr>communities = [\<lparr>level = 0, entity_ids = [JStr ''a'']\<rparr>,
                              \<lparr>level = 0, entity_ids = [JStr ''b'']\<rparr>,
                              \<lparr>level = 0, entity_ids = [JStr ''c'']\<rparr>],
              vertex_count = 3, edge_count = 2, community_count = 3\<rparr>"
    by (simp add: run_defs singletons_def numeral_3_eq_3 upt_rec)
  from output_envelope [OF h] h show ?thesis by auto
qed

section \<open>Malformed edges and invalid weights\<close>










section \<open>The error surface\<close>

text \<open>
  C7. On the input \<^verbatim>\<open>{"edges": [["a"]]}\<close> the run ends in neither of the two ways the claim
  allows: the unpacking of the 1-element edge raises \<^verbatim>\<open>ValueError\<close> in the conversion
  loop, which no \<^verbatim>\<open>try\<close> encloses, so no partition and no error object is printed.
\<close>

theorem one_element_edge_is_uncaught:
  "main b lib (Parsed (JObj [(''edges'', JArr [JArr [JStr ''a'']])])) = Crash ValueError"
  by (simp add: main_def obj_get_def convert_edges_def convert_edge_def)

section \<open>The two-triangle scenario\<close>

text \<open>
  What the script prints for the two disjoint triangles when the library labels the first
  triangle 0 and the second 1. That the Leiden algorithm does so is a property of the
  library.
\<close>

lemma two_triangles_grouping:
  "main plain_builtins (\<lambda>g weights resolution n_iterations. Inr [0, 0, 0, 1, 1, 1])
     (Parsed (JObj [(''edges'', JArr [JArr [JInt 0, JInt 1], JArr [JInt 1, JInt 2], JArr [JInt 2, JInt 0],
        JArr [JInt 3, JInt 4], JArr [JInt 4, JInt 5], JArr [JInt 5, JInt 3]]),
        (''resolution'', JFloat (Fin 1))])) =
   Success \<lparr>communities = [\<lparr>level = 0, entity_ids = [JInt 0, JInt 1, JInt 2]\<rparr>,
                            \<lparr>level = 0, entity_ids = [JInt 3, JInt 4, JInt 5]\<rparr>],
            vertex_count = 6, edge_count = 6, community_count = 2\<rparr>"
  by (simp add: run_defs)

end
